theory Spec2Isabelle
  imports Main "HOL-Library.Word"
begin

section \<open>Common types\<close>

text \<open>
  \<^verbatim>\<open>time.Duration\<close> is a signed 64-bit count of nanoseconds. It is modelled as an
  \<^typ>\<open>int\<close> and every arithmetic result is brought back into the 64-bit range by
  \<open>wrap64\<close>, as the machine does.
\<close>

type_synonym duration = int

definition wrap64 :: "int \<Rightarrow> int" where
  "wrap64 x = (x + 2 ^ 63) mod 2 ^ 64 - 2 ^ 63"

definition Millisecond :: duration where
  "Millisecond = 1000000"

definition Second :: duration where
  "Second = 1000000000"

text \<open>
  A Go \<^verbatim>\<open>error\<close> value, as far as the accept loop inspects it: either it implements
  \<^verbatim>\<open>net.Error\<close> (and then carries the answer of its \<^verbatim>\<open>Temporary()\<close> method), or it
  does not. The string is its message.
\<close>

datatype go_error = NetError string bool | OtherError string

fun is_temporary :: "go_error \<Rightarrow> bool" where
  "is_temporary (NetError msg t) = t"
| "is_temporary (OtherError msg) = False"

text \<open>A TCP connection: its remote address and the two socket options the listener sets.\<close>

record tcp_conn =
  remote_addr :: string
  keep_alive :: bool
  keep_alive_period :: duration

section \<open>The keep-alive listener\<close>





section \<open>The accept loop\<close>

datatype serve_event =
    LogRetry go_error duration
  | Sleep duration
  | GoHandle tcp_conn
  | ListenerClose

text \<open>Lines 139--146 of \<^verbatim>\<open>proxy.serve\<close>: the delay after one more temporary error.\<close>

definition next_delay :: "duration \<Rightarrow> duration" where
  "next_delay delay =
     (if delay = 0 then 5 * Millisecond
      else (let delay2 = wrap64 (delay * 2)
            in if delay2 > Second then Second else delay2))"

text \<open>
  The loop of \<^verbatim>\<open>proxy.serve\<close>. The list holds the results of the successive calls of
  \<^verbatim>\<open>l.Accept()\<close>; when it is used up the loop is still blocked in \<^verbatim>\<open>Accept\<close> and has
  not returned (\<open>None\<close>). The result is the events so far and the error returned, if any.
\<close>

fun serve_loop :: "duration \<Rightarrow> (go_error + tcp_conn) list \<Rightarrow> serve_event list \<times> go_error option" where
  "serve_loop delay [] = ([], None)"
| "serve_loop delay (Inl err # rs) =
     (if is_temporary err then
        (let delay' = next_delay delay;
             (evs, res) = serve_loop delay' rs
         in (LogRetry err delay' # Sleep delay' # evs, res))
      else ([], Some err))"
| "serve_loop delay (Inr c # rs) =
     (let (evs, res) = serve_loop 0 rs in (GoHandle c # evs, res))"

text \<open>\<^verbatim>\<open>proxy.serve\<close>: the loop starts with delay zero; the deferred close runs on return.\<close>

definition serve :: "(go_error + tcp_conn) list \<Rightarrow> serve_event list \<times> go_error option" where
  "serve rs =
     (let (evs, res) = serve_loop 0 rs
      in (case res of None \<Rightarrow> (evs, None) | Some err \<Rightarrow> (evs @ [ListenerClose], Some err)))"

fun sleeps :: "serve_event list \<Rightarrow> duration list" where
  "sleeps [] = []"
| "sleeps (Sleep d # evs) = d # sleeps evs"
| "sleeps (ev # evs) = sleeps evs"


text \<open>
  The specification's backoff schedule: the delay after the \<open>i\<close>-th consecutive temporary
  error (counting from zero) is 5ms doubled \<open>i\<close> times, capped at one second.
\<close>

definition spec_backoff :: "nat \<Rightarrow> duration" where
  "spec_backoff i = min (5 * Millisecond * 2 ^ i) Second"

text \<open>
  The specification's view of the loop: the sleeps are determined by the number \<open>n\<close> of
  temporary errors since the last successful accept.
\<close>

fun spec_delays :: "nat \<Rightarrow> (go_error + tcp_conn) list \<Rightarrow> duration list" where
  "spec_delays n [] = []"
| "spec_delays n (Inl err # rs) =
     (if is_temporary err then spec_backoff n # spec_delays (Suc n) rs else [])"
| "spec_delays n (Inr c # rs) = spec_delays 0 rs"

text \<open>An accept result after which the loop goes on: a connection or a temporary error.\<close>

fun recoverable :: "go_error + tcp_conn \<Rightarrow> bool" where
  "recoverable (Inl err) = is_temporary err"
| "recoverable (Inr c) = True"

text \<open>The value of \<^verbatim>\<open>delay\<close> after \<open>n\<close> consecutive temporary errors.\<close>

fun delay_after :: "nat \<Rightarrow> duration" where
  "delay_after 0 = 0"
| "delay_after (Suc n) = spec_backoff n"



section \<open>Configuration and the routing table\<close>

text \<open>
  The JSON configuration as decoded into \<^verbatim>\<open>proxy\<close>. \<^verbatim>\<open>Hosts\<close> is a Go map; the range
  loop over it visits its entries in an order the runtime chooses, so the field is the
  list of entries in the order of that visit.
\<close>

record proto =
  Name :: string
  Hosts :: "(string \<times> string) list"

record proxy_config =
  BindInterfaces :: "string list"
  Email :: string
  CacheDir :: string
  Protos :: "proto list"
  DefaultProto :: string

text \<open>
  A backend: \<open>name\<close> holds the two arguments of the format \<^verbatim>\<open>"%q.%q: "\<close> from which
  the log prefix is printed, \<open>addr\<close> the dial address.
\<close>

record backend =
  name :: "string \<times> string"
  addr :: string

type_synonym host_map = "string \<rightharpoonup> backend"
type_synonym routing = "string \<rightharpoonup> host_map"

text \<open>The errors \<^verbatim>\<open>proxy.init\<close> returns, one constructor per message, with its arguments.\<close>

datatype init_error =
    DefaultProtoMissing
  | ProtoNameMissing nat
  | ProtoHostsMissing nat
  | EmptyHostKey nat
  | EmptyHostAddr nat string
  | DefaultProtoUndefined string
  | CacheDirMissing
  | KeyGenerationFailed string

fun contains :: "string list \<Rightarrow> string \<Rightarrow> bool" where
  "contains [] s1 = False"
| "contains (s2 # strs) s1 = (if s1 = s2 then True else contains strs s1)"

text \<open>
  The inner loop of \<^verbatim>\<open>proxy.init\<close> (lines 59--72) for the protocol at index \<open>i\<close>. The
  map \<open>m\<close> is the map object stored at \<^verbatim>\<open>p.backends[proto.Name]\<close>, which the loop fills.
\<close>

fun init_hosts ::
  "nat \<Rightarrow> string \<Rightarrow> (string \<times> string) list \<Rightarrow> host_map \<times> string list
     \<Rightarrow> init_error + host_map \<times> string list" where
  "init_hosts i pname [] (m, hosts) = Inr (m, hosts)"
| "init_hosts i pname ((host, a) # rest) (m, hosts) =
     (if host = [] then Inl (EmptyHostKey i)
      else if a = [] then Inl (EmptyHostAddr i host)
      else init_hosts i pname rest
             (m(host \<mapsto> \<lparr>name = (pname, host), addr = a\<rparr>),
              if \<not> contains hosts host then hosts @ [host] else hosts))"

text \<open>
  The outer loop (lines 51--74): the routing table, the host list and
  \<^verbatim>\<open>p.config.NextProtos\<close> are threaded through.
\<close>

fun init_protos ::
  "nat \<Rightarrow> proto list \<Rightarrow> routing \<times> string list \<times> string list
     \<Rightarrow> init_error + routing \<times> string list \<times> string list" where
  "init_protos i [] acc = Inr acc"
| "init_protos i (pr # rest) (bk, hosts, nps) =
     (if Name pr = [] then Inl (ProtoNameMissing i)
      else if length (Hosts pr) = 0 then Inl (ProtoHostsMissing i)
      else (case init_hosts i (Name pr) (Hosts pr) (Map.empty, hosts) of
              Inl e \<Rightarrow> Inl e
            | Inr (m, hosts') \<Rightarrow>
                init_protos (Suc i) rest (bk(Name pr \<mapsto> m), hosts', nps @ [Name pr])))"

text \<open>What the validating part of \<^verbatim>\<open>proxy.init\<close> (lines 38--94) leaves in the proxy.\<close>

record validated =
  v_bind :: "string list"
  v_backends :: routing
  v_whitelist :: "string list"
  v_next_protos :: "string list"
  v_cache :: string
  v_email :: string

definition validate :: "proxy_config \<Rightarrow> init_error + validated" where
  "validate cfg =
     (let binds = (if length (BindInterfaces cfg) = 0 then [''''] else BindInterfaces cfg)
      in if DefaultProto cfg = [] then Inl DefaultProtoMissing
         else (case init_protos 0 (Protos cfg) (Map.empty, [], []) of
                 Inl e \<Rightarrow> Inl e
               | Inr (bk, hosts, nps) \<Rightarrow>
                   (case bk (DefaultProto cfg) of
                      None \<Rightarrow> Inl (DefaultProtoUndefined (DefaultProto cfg))
                    | Some m \<Rightarrow>
                        if CacheDir cfg = [] then Inl CacheDirMissing
                        else Inr \<lparr>v_bind = binds, v_backends = bk([] \<mapsto> m),
                                  v_whitelist = hosts, v_next_protos = nps,
                                  v_cache = CacheDir cfg, v_email = Email cfg\<rparr>)))"

section \<open>Session ticket keys\<close>

text \<open>
  A key is \<^verbatim>\<open>[32]byte\<close>. A read of \<^verbatim>\<open>crypto/rand\<close> either fails with a message or
  fills the key. The slice \<^verbatim>\<open>keys\<close> is its backing array (whose length is the capacity)
  and its length.
\<close>

type_synonym key = "8 word list"

datatype rand_result = RandErr string | RandOk key

record key_slice =
  backing :: "key list"
  slice_len :: nat

definition zero_key :: key where
  "zero_key = replicate 32 0"

definition make_keys :: key_slice where
  "make_keys = \<lparr>backing = replicate 96 zero_key, slice_len = 1\<rparr>"

definition visible :: "key_slice \<Rightarrow> key list" where
  "visible ks = take (slice_len ks) (backing ks)"

text \<open>The proxy after \<^verbatim>\<open>init\<close>: what validation built, the key slice and the keys installed.\<close>

record proxy =
  built :: validated
  keys :: key_slice
  session_ticket_keys :: "key list"

text \<open>\<^verbatim>\<open>proxy.init\<close>: validation, then the first key (lines 96--103).\<close>

definition init :: "proxy_config \<Rightarrow> rand_result \<Rightarrow> init_error + proxy" where
  "init cfg rnd =
     (case validate cfg of
        Inl e \<Rightarrow> Inl e
      | Inr v \<Rightarrow>
          (case rnd of
             RandErr msg \<Rightarrow> Inl (KeyGenerationFailed msg)
           | RandOk k \<Rightarrow>
               (let ks = make_keys\<lparr>backing := (backing make_keys)[0 := k]\<rparr>
                in Inr \<lparr>built = v, keys = ks, session_ticket_keys = visible ks\<rparr>)))"

text \<open>
  The shifting loop of lines 121--123, started at \<open>s2\<close>: \<^verbatim>\<open>keys[s2] = keys[s1]\<close> with
  \<open>s1 = s2 - 1\<close>, downwards while \<open>s2 > 0\<close>.
\<close>

fun shift_keys :: "nat \<Rightarrow> key list \<Rightarrow> key list" where
  "shift_keys 0 a = a"
| "shift_keys (Suc s1) a = shift_keys s1 (a[Suc s1 := a ! s1])"

text \<open>
  How the rotation goroutine can end: \<^verbatim>\<open>log.Fatalf\<close> exits the process; indexing an empty
  slice panics.
\<close>

datatype rotate_exit = FatalExit string | IndexPanic

text \<open>One iteration of the loop of \<^verbatim>\<open>rotateSessionTicketKeys\<close>, after the sleep.\<close>

definition rotate_tick :: "proxy \<Rightarrow> rand_result \<Rightarrow> rotate_exit + proxy" where
  "rotate_tick p rnd =
     (let n = (if slice_len (keys p) < length (backing (keys p))
               then slice_len (keys p) + 1 else slice_len (keys p));
          arr = shift_keys (n - 1) (backing (keys p))
      in if n = 0 then Inl IndexPanic
         else (case rnd of
                 RandErr msg \<Rightarrow> Inl (FatalExit msg)
               | RandOk k \<Rightarrow>
                   (let ks = \<lparr>backing = arr[0 := k], slice_len = n\<rparr>
                    in Inr (p\<lparr>keys := ks, session_ticket_keys := visible ks\<rparr>))))"

text \<open>
  The loop never returns normally. The list holds the results of the reads of the
  successive hourly iterations; the result is the proxy after them, or how the process
  ended.
\<close>

fun rotateSessionTicketKeys :: "proxy \<Rightarrow> rand_result list \<Rightarrow> rotate_exit + proxy" where
  "rotateSessionTicketKeys p [] = Inr p"
| "rotateSessionTicketKeys p (r # rs) =
     (case rotate_tick p r of
        Inl x \<Rightarrow> Inl x
      | Inr p' \<Rightarrow> rotateSessionTicketKeys p' rs)"

section \<open>Startup\<close>

text \<open>
  \<^verbatim>\<open>main\<close> from the call of \<^verbatim>\<open>init\<close> on (lines 51--66): \<open>listen\<close> gives the error of
  \<^verbatim>\<open>net.Listen\<close> on an interface, if any; \<^verbatim>\<open>log.Fatal\<close> ends the process.
\<close>

datatype main_event =
    FatalInit init_error
  | FatalListen string go_error
  | GoServe string
  | LogInitialized

fun listen_all :: "(string \<Rightarrow> go_error option) \<Rightarrow> string list \<Rightarrow> main_event list" where
  "listen_all listen [] = [LogInitialized]"
| "listen_all listen (host # rest) =
     (case listen host of
        Some err \<Rightarrow> [FatalListen host err]
      | None \<Rightarrow> GoServe host # listen_all listen rest)"

definition main_from_init ::
  "proxy_config \<Rightarrow> rand_result \<Rightarrow> (string \<Rightarrow> go_error option) \<Rightarrow> main_event list" where
  "main_from_init cfg rnd listen =
     (case init cfg rnd of
        Inl err \<Rightarrow> [FatalInit err]
      | Inr p \<Rightarrow> listen_all listen (v_bind (built p)))"

fun is_serve :: "main_event \<Rightarrow> bool" where
  "is_serve (GoServe host) = True"
| "is_serve ev = False"

section \<open>The stream relay\<close>

text \<open>
  The two sockets of a relay: \<open>C1\<close> is the TLS connection to the client, \<open>C2\<close> the
  connection dialled to the backend. The two copy directions: \<open>ToClient\<close> is the
  goroutine \<^verbatim>\<open>go cp(c1, c2)\<close>, \<open>ToBackend\<close> the call \<^verbatim>\<open>cp(c2, c1)\<close>.
\<close>

datatype sock = C1 | C2

datatype dir = ToClient | ToBackend

fun dst :: "dir \<Rightarrow> sock" where
  "dst ToClient = C1"
| "dst ToBackend = C2"

fun src :: "dir \<Rightarrow> sock" where
  "src ToClient = C2"
| "src ToBackend = C1"

text \<open>
  What one statement of \<^verbatim>\<open>cp\<close> does to the world. Buffers are identified by numbers;
  each one is a \<^verbatim>\<open>[]byte\<close> of length \<open>2 ^ 15\<close>.
\<close>

datatype action =
    PoolGet nat
  | CopyReturned "go_error option"
  | SendFirst
  | SelectDefault
  | LogErr go_error
  | CloseSock sock
  | LogDisconnected
  | PoolPut nat

text \<open>The statement of \<^verbatim>\<open>cp\<close> a direction executes next.\<close>

datatype pc =
    AtGet | AtCopy | AtSelect | AtLogErr | AtCloseDst | AtCloseSrc | AtLogDisc | AtPut | Finished

text \<open>
  The state shared by the two directions: the number of values in the channel
  \<^verbatim>\<open>first\<close> (capacity 1, never received from), the free buffers of \<^verbatim>\<open>bufferPool\<close>, the
  number of the next buffer \<^verbatim>\<open>New\<close> makes, and the trace of what was done by whom; and for
  each direction its position and its locals \<^verbatim>\<open>buf\<close> and \<^verbatim>\<open>err\<close> (\<open>buf_of\<close>, \<open>err_of\<close>).
\<close>

record relay =
  pcs :: "dir \<Rightarrow> pc"
  buf_of :: "dir \<Rightarrow> nat option"
  err_of :: "dir \<Rightarrow> go_error option"
  first_len :: nat
  pool :: "nat list"
  next_buf :: nat
  trace :: "(dir \<times> action) list"

definition first_cap :: nat where
  "first_cap = 1"

text \<open>
  One statement of \<^verbatim>\<open>cp\<close> executed by direction \<open>d\<close>; \<open>outcome d\<close> is what
  \<^verbatim>\<open>io.CopyBuffer\<close> returns in that direction when it returns. The \<^verbatim>\<open>select\<close> sends if the
  channel has room and takes the default case otherwise. The local \<^verbatim>\<open>buf\<close> is assigned by
  the first statement, so at \<open>AtPut\<close> it is set; were it not, the state would stay as it is.
\<close>

definition cp_step :: "(dir \<Rightarrow> go_error option) \<Rightarrow> dir \<Rightarrow> relay \<Rightarrow> relay" where
  "cp_step outcome d st =
     (case pcs st d of
        AtGet \<Rightarrow>
          (case pool st of
             [] \<Rightarrow> st\<lparr>pcs := (pcs st)(d := AtCopy), buf_of := (buf_of st)(d \<mapsto> next_buf st),
                      next_buf := Suc (next_buf st),
                      trace := trace st @ [(d, PoolGet (next_buf st))]\<rparr>
           | b # free \<Rightarrow> st\<lparr>pcs := (pcs st)(d := AtCopy), buf_of := (buf_of st)(d \<mapsto> b),
                      pool := free, trace := trace st @ [(d, PoolGet b)]\<rparr>)
      | AtCopy \<Rightarrow>
          st\<lparr>pcs := (pcs st)(d := AtSelect), err_of := (err_of st)(d := outcome d),
              trace := trace st @ [(d, CopyReturned (outcome d))]\<rparr>
      | AtSelect \<Rightarrow>
          (if first_len st < first_cap
           then st\<lparr>pcs := (pcs st)(d := AtLogErr), first_len := Suc (first_len st),
                    trace := trace st @ [(d, SendFirst)]\<rparr>
           else st\<lparr>pcs := (pcs st)(d := AtPut), trace := trace st @ [(d, SelectDefault)]\<rparr>)
      | AtLogErr \<Rightarrow>
          (case err_of st d of
             None \<Rightarrow> st\<lparr>pcs := (pcs st)(d := AtCloseDst)\<rparr>
           | Some e \<Rightarrow> st\<lparr>pcs := (pcs st)(d := AtCloseDst),
                          trace := trace st @ [(d, LogErr e)]\<rparr>)
      | AtCloseDst \<Rightarrow>
          st\<lparr>pcs := (pcs st)(d := AtCloseSrc), trace := trace st @ [(d, CloseSock (dst d))]\<rparr>
      | AtCloseSrc \<Rightarrow>
          st\<lparr>pcs := (pcs st)(d := AtLogDisc), trace := trace st @ [(d, CloseSock (src d))]\<rparr>
      | AtLogDisc \<Rightarrow>
          st\<lparr>pcs := (pcs st)(d := AtPut), trace := trace st @ [(d, LogDisconnected)]\<rparr>
      | AtPut \<Rightarrow>
          (case buf_of st d of
             None \<Rightarrow> st
           | Some b \<Rightarrow> st\<lparr>pcs := (pcs st)(d := Finished), pool := b # pool st,
                          trace := trace st @ [(d, PoolPut b)]\<rparr>)
      | Finished \<Rightarrow> st)"

text \<open>
  A schedule is the order in which the two directions execute their statements; any
  list is one.
\<close>

fun run :: "(dir \<Rightarrow> go_error option) \<Rightarrow> dir list \<Rightarrow> relay \<Rightarrow> relay" where
  "run outcome [] st = st"
| "run outcome (d # sched) st = run outcome sched (cp_step outcome d st)"

text \<open>
  The relay when \<^verbatim>\<open>backend.handle\<close> has dialled and made the channel (line 210): both
  directions are about to start, over the given pool.
\<close>

definition relay_start :: "nat list \<Rightarrow> nat \<Rightarrow> relay" where
  "relay_start free fresh =
     \<lparr>pcs = (\<lambda>d. AtGet), buf_of = (\<lambda>d. None), err_of = (\<lambda>d. None), first_len = 0,
      pool = free, next_buf = fresh, trace = []\<rparr>"

text \<open>Reading a trace: the actions of one direction, and counting.\<close>

definition by_dir :: "dir \<Rightarrow> (dir \<times> action) list \<Rightarrow> action list" where
  "by_dir d tr = map snd (filter (\<lambda>e. fst e = d) tr)"

definition closes :: "sock \<Rightarrow> (dir \<times> action) list \<Rightarrow> nat" where
  "closes s tr = length (filter (\<lambda>e. snd e = CloseSock s) tr)"

definition disconnects :: "(dir \<times> action) list \<Rightarrow> nat" where
  "disconnects tr = length (filter (\<lambda>e. snd e = LogDisconnected) tr)"

fun is_teardown :: "action \<Rightarrow> bool" where
  "is_teardown (LogErr e) = True"
| "is_teardown (CloseSock s) = True"
| "is_teardown LogDisconnected = True"
| "is_teardown a = False"

definition won :: "dir \<Rightarrow> (dir \<times> action) list \<Rightarrow> bool" where
  "won d tr = ((d, SendFirst) \<in> set tr)"

fun other :: "dir \<Rightarrow> dir" where
  "other ToClient = ToBackend"
| "other ToBackend = ToClient"

text \<open>The statements a direction still has to execute, at most.\<close>

fun rank :: "pc \<Rightarrow> nat" where
  "rank AtGet = 8"
| "rank AtCopy = 7"
| "rank AtSelect = 6"
| "rank AtLogErr = 5"
| "rank AtCloseDst = 4"
| "rank AtCloseSrc = 3"
| "rank AtLogDisc = 2"
| "rank AtPut = 1"
| "rank Finished = 0"

text \<open>The relay after a schedule, started as \<^verbatim>\<open>backend.handle\<close> starts it.\<close>

definition relay_run :: "(dir \<Rightarrow> go_error option) \<Rightarrow> dir list \<Rightarrow> nat list \<Rightarrow> nat \<Rightarrow> relay" where
  "relay_run outcome sched free fresh = run outcome sched (relay_start free fresh)"

fun is_pool :: "action \<Rightarrow> bool" where
  "is_pool (PoolGet b) = True"
| "is_pool (PoolPut b) = True"
| "is_pool a = False"

text \<open>
  What a direction must have done so far, given its position, its locals and whether its
  \<^verbatim>\<open>select\<close> sent: the statements of \<^verbatim>\<open>cp\<close> up to there, in order.
\<close>

definition got :: "nat option \<Rightarrow> action list" where
  "got b = (case b of None \<Rightarrow> [] | Some n \<Rightarrow> [PoolGet n])"

definition put :: "nat option \<Rightarrow> action list" where
  "put b = (case b of None \<Rightarrow> [] | Some n \<Rightarrow> [PoolPut n])"

definition logged :: "go_error option \<Rightarrow> action list" where
  "logged e = (case e of None \<Rightarrow> [] | Some x \<Rightarrow> [LogErr x])"

fun expected :: "dir \<Rightarrow> pc \<Rightarrow> nat option \<Rightarrow> go_error option \<Rightarrow> bool \<Rightarrow> action list" where
  "expected d AtGet b e w = []"
| "expected d AtCopy b e w = got b"
| "expected d AtSelect b e w = got b @ [CopyReturned e]"
| "expected d AtLogErr b e w = got b @ [CopyReturned e, SendFirst]"
| "expected d AtCloseDst b e w = got b @ [CopyReturned e, SendFirst] @ logged e"
| "expected d AtCloseSrc b e w =
     got b @ [CopyReturned e, SendFirst] @ logged e @ [CloseSock (dst d)]"
| "expected d AtLogDisc b e w =
     got b @ [CopyReturned e, SendFirst] @ logged e @ [CloseSock (dst d), CloseSock (src d)]"
| "expected d AtPut b e w =
     (if w then got b @ [CopyReturned e, SendFirst] @ logged e @
                [CloseSock (dst d), CloseSock (src d), LogDisconnected]
      else got b @ [CopyReturned e, SelectDefault])"
| "expected d Finished b e w =
     (if w then got b @ [CopyReturned e, SendFirst] @ logged e @
                [CloseSock (dst d), CloseSock (src d), LogDisconnected] @ put b
      else got b @ [CopyReturned e, SelectDefault] @ put b)"

text \<open>Positions before the \<^verbatim>\<open>select\<close>, and positions inside its first case.\<close>

definition before_select :: "pc \<Rightarrow> bool" where
  "before_select c \<longleftrightarrow> c = AtGet \<or> c = AtCopy \<or> c = AtSelect"

definition in_teardown :: "pc \<Rightarrow> bool" where
  "in_teardown c \<longleftrightarrow> c = AtLogErr \<or> c = AtCloseDst \<or> c = AtCloseSrc \<or> c = AtLogDisc"

text \<open>
  The invariant of the relay: each direction has done what its position says; the channel
  holds one value per direction that sent, at most one; a direction is past its
  \<^verbatim>\<open>select\<close> only if the channel is full.
\<close>

definition dir_inv :: "relay \<Rightarrow> dir \<Rightarrow> bool" where
  "dir_inv st d \<longleftrightarrow>
     by_dir d (trace st) = expected d (pcs st d) (buf_of st d) (err_of st d) (won d (trace st)) \<and>
     (pcs st d \<noteq> AtGet \<longrightarrow> buf_of st d \<noteq> None) \<and>
     (before_select (pcs st d) \<longrightarrow> \<not> won d (trace st)) \<and>
     (in_teardown (pcs st d) \<longrightarrow> won d (trace st))"

definition relay_inv :: "relay \<Rightarrow> bool" where
  "relay_inv st \<longleftrightarrow>
     dir_inv st ToClient \<and> dir_inv st ToBackend \<and>
     first_len st = (if won ToClient (trace st) then 1 else 0) + (if won ToBackend (trace st) then 1 else 0) \<and>
     first_len st \<le> 1 \<and>
     (before_select (pcs st ToClient) \<and> before_select (pcs st ToBackend) \<or> first_len st = 1)"

text \<open>Two runs: the copy to the client ends first, and the copy to the backend ends first.\<close>

definition eof_then_closed :: "dir \<Rightarrow> go_error option" where
  "eof_then_closed d =
     (case d of ToClient \<Rightarrow> None
      | ToBackend \<Rightarrow> Some (OtherError ''use of closed network connection''))"

definition client_first :: "dir list" where
  "client_first =
     [ToBackend, ToClient, ToClient, ToClient, ToClient, ToClient, ToClient, ToBackend,
      ToClient, ToBackend, ToClient, ToBackend]"

definition reset_then_eof :: "dir \<Rightarrow> go_error option" where
  "reset_then_eof d =
     (case d of ToClient \<Rightarrow> None
      | ToBackend \<Rightarrow> Some (OtherError ''connection reset by peer''))"

definition backend_first :: "dir list" where
  "backend_first =
     [ToBackend, ToBackend, ToClient, ToClient, ToBackend, ToClient, ToClient,
      ToBackend, ToBackend, ToBackend, ToBackend, ToBackend]"

section \<open>Connection handling\<close>

datatype conn_event =
    LogHandshakeError string go_error
  | LogNotFound string string string
  | CloseConn
  | LogAccepted backend string
  | Dial string
  | LogBackendError backend go_error
  | CloseClient
  | LogBackendDisconnected backend string
  | Relayed dir action

text \<open>
  \<^verbatim>\<open>backend.handle\<close>: \<open>dial\<close> is the error of the dial, if any. After a successful dial
  the events are those of the relay under the given schedule.
\<close>

definition backend_handle ::
  "backend \<Rightarrow> string \<Rightarrow> go_error option \<Rightarrow> (dir \<Rightarrow> go_error option) \<Rightarrow> dir list
     \<Rightarrow> nat list \<Rightarrow> nat \<Rightarrow> conn_event list" where
  "backend_handle b remote dial outcome sched free fresh =
     LogAccepted b remote # Dial (addr b) #
     (case dial of
        Some e \<Rightarrow> [LogBackendError b e, CloseClient, LogBackendDisconnected b remote]
      | None \<Rightarrow> map (\<lambda>(d, a). Relayed d a) (trace (relay_run outcome sched free fresh)))"

text \<open>
  Lines 168--169 of \<^verbatim>\<open>proxy.handle\<close>: reading a missing key of a map, or any key of the
  nil map, yields no backend.
\<close>

definition lookup :: "routing \<Rightarrow> string \<Rightarrow> string \<Rightarrow> backend option" where
  "lookup bk protocol server_name =
     (case bk protocol of
        None \<Rightarrow> None
      | Some hosts \<Rightarrow> hosts server_name)"

text \<open>
  \<^verbatim>\<open>proxy.handle\<close>: \<open>hs\<close> is the result of the handshake, on success the negotiated
  protocol and the server name of the connection state.
\<close>

definition proxy_handle ::
  "routing \<Rightarrow> string \<Rightarrow> go_error + string \<times> string \<Rightarrow> go_error option
     \<Rightarrow> (dir \<Rightarrow> go_error option) \<Rightarrow> dir list \<Rightarrow> nat list \<Rightarrow> nat \<Rightarrow> conn_event list" where
  "proxy_handle bk remote hs dial outcome sched free fresh =
     (case hs of
        Inl e \<Rightarrow> [LogHandshakeError remote e, CloseConn]
      | Inr (protocol, server_name) \<Rightarrow>
          (case lookup bk protocol server_name of
             None \<Rightarrow> [LogNotFound protocol server_name remote, CloseConn]
           | Some b \<Rightarrow> backend_handle b remote dial outcome sched free fresh))"






fun is_dial :: "conn_event \<Rightarrow> bool" where
  "is_dial (Dial a) = True"
| "is_dial ev = False"

section \<open>The specification's notions\<close>

text \<open>
  The structural violations of a configuration, in the order in which they are looked
  for: the default protocol, then each protocol in turn (its name, its host set, its
  entries in the order of the visit), then the reference of the default protocol, then
  the cache directory.
\<close>

fun spec_host_violations :: "nat \<Rightarrow> (string \<times> string) list \<Rightarrow> init_error list" where
  "spec_host_violations i [] = []"
| "spec_host_violations i ((host, a) # rest) =
     (if host = [] then [EmptyHostKey i] else []) @
     (if a = [] then [EmptyHostAddr i host] else []) @
     spec_host_violations i rest"

fun spec_proto_violations :: "nat \<Rightarrow> proto list \<Rightarrow> init_error list" where
  "spec_proto_violations i [] = []"
| "spec_proto_violations i (pr # rest) =
     (if Name pr = [] then [ProtoNameMissing i] else []) @
     (if Hosts pr = [] then [ProtoHostsMissing i] else []) @
     spec_host_violations i (Hosts pr) @
     spec_proto_violations (Suc i) rest"

definition spec_violations :: "proxy_config \<Rightarrow> init_error list" where
  "spec_violations cfg =
     (if DefaultProto cfg = [] then [DefaultProtoMissing] else []) @
     spec_proto_violations 0 (Protos cfg) @
     (if DefaultProto cfg \<in> set (map Name (Protos cfg)) then []
      else [DefaultProtoUndefined (DefaultProto cfg)]) @
     (if CacheDir cfg = [] then [CacheDirMissing] else [])"

text \<open>
  The routing table of a configuration: a protocol name maps to the hosts of the (last)
  protocol definition of that name, each host to the backend with its (last) address.
\<close>

definition spec_host_map :: "string \<Rightarrow> (string \<times> string) list \<Rightarrow> host_map" where
  "spec_host_map pname hs =
     map_of (rev (map (\<lambda>(host, a). (host, \<lparr>name = (pname, host), addr = a\<rparr>)) hs))"

definition spec_routing :: "proto list \<Rightarrow> routing" where
  "spec_routing ps = map_of (rev (map (\<lambda>pr. (Name pr, spec_host_map (Name pr) (Hosts pr))) ps))"

definition spec_hostnames :: "proto list \<Rightarrow> string set" where
  "spec_hostnames ps = (\<Union>pr \<in> set ps. fst ` set (Hosts pr))"

text \<open>The shape of the key slice: capacity 96 and a length from 1 to 96.\<close>

definition ring_ok :: "key_slice \<Rightarrow> bool" where
  "ring_ok ks \<longleftrightarrow> length (backing ks) = 96 \<and> 0 < slice_len ks \<and> slice_len ks \<le> 96"

section \<open>Example configurations\<close>

definition example_config :: proxy_config where
  "example_config =
     \<lparr>BindInterfaces = [], Email = ''admin@a.example'', CacheDir = ''cache'',
      Protos = [\<lparr>Name = ''h2'', Hosts = [(''a.example'', ''127.0.0.1:9001'')]\<rparr>,
                \<lparr>Name = ''http/1.1'',
                 Hosts = [(''a.example'', ''127.0.0.1:8080''), (''b.example'', ''127.0.0.1:8081'')]\<rparr>],
      DefaultProto = ''http/1.1''\<rparr>"

definition broken_config :: proxy_config where
  "broken_config =
     \<lparr>BindInterfaces = [''127.0.0.1''], Email = [], CacheDir = [],
      Protos = [\<lparr>Name = ''h2'', Hosts = [(''a.example'', ''127.0.0.1:9001'')]\<rparr>,
                \<lparr>Name = ''http/1.1'',
                 Hosts = [(''a.example'', ''127.0.0.1:8080''), (''b.example'', [])]\<rparr>],
      DefaultProto = ''spdy''\<rparr>"

definition example_key :: "nat \<Rightarrow> key" where
  "example_key n = replicate 32 (of_nat n)"

section \<open>Properties of the accept loop\<close>

lemma next_delay_backoff: "next_delay (spec_backoff i) = spec_backoff (Suc i)"
proof -
  define x :: int where "x = 5 * Millisecond * 2 ^ i"
  have pos: "0 < x" by (simp add: x_def Millisecond_def)
  have suc: "spec_backoff (Suc i) = min (x * 2) Second"
    by (simp add: spec_backoff_def x_def mult.assoc mult.commute)
  have cur: "spec_backoff i = min x Second"
    by (simp add: spec_backoff_def x_def)
  have sec: "Second = 1000000000" by (simp add: Second_def)
  show ?thesis
  proof (cases "x \<le> Second")
    case True
    then have "x * 2 < 2 ^ 63" by (simp add: sec)
    then have w: "wrap64 (x * 2) = x * 2"
      using pos by (simp add: wrap64_def)
    from True have b: "min x Second = x" by simp
    show ?thesis using pos unfolding suc cur b next_delay_def Let_def w
      by (simp add: min_def)
  next
    case False
    then have b: "min x Second = Second" by simp
    have w: "wrap64 (Second * 2) = Second * 2" by (simp add: wrap64_def sec)
    from False have "min (x * 2) Second = Second" by (simp add: sec)
    then show ?thesis unfolding suc cur b next_delay_def Let_def w by (simp add: sec)
  qed
qed

lemma next_delay_0: "next_delay 0 = spec_backoff 0"
  by (simp add: next_delay_def spec_backoff_def Millisecond_def Second_def)

lemma next_delay_after: "next_delay (delay_after n) = spec_backoff n"
  by (cases n) (simp_all add: next_delay_0 next_delay_backoff)

lemma next_delay_doubles:
  assumes "0 < d" "d \<le> Second"
  shows "next_delay d = min (2 * d) Second"
proof -
  have "d * 2 < 2 ^ 63" using assms by (simp add: Second_def)
  then have "wrap64 (d * 2) = d * 2" using assms by (simp add: wrap64_def)
  then show ?thesis using assms by (simp add: next_delay_def Let_def min_def)
qed

lemma sleeps_serve_loop:
  "sleeps (fst (serve_loop (delay_after n) rs)) = spec_delays n rs"
proof (induction n rs rule: spec_delays.induct)
  case (1 n)
  then show ?case by simp
next
  case (2 n err rs)
  have "delay_after (Suc n) = next_delay (delay_after n)"
    by (simp add: next_delay_after)
  with 2 show ?case
    by (simp add: split_beta Let_def next_delay_after)
next
  case (3 n c rs)
  then show ?case using "3.IH" [symmetric] by (simp add: split_beta)
qed

lemma sleeps_append: "sleeps (evs @ evs') = sleeps evs @ sleeps evs'"
  by (induction evs rule: sleeps.induct) simp_all


lemma serve_loop_stops:
  "\<forall>r \<in> set pre. recoverable r \<Longrightarrow> \<not> is_temporary err \<Longrightarrow>
   serve_loop d (pre @ Inl err # rs) = (fst (serve_loop d pre), Some err)"
proof (induction d pre rule: serve_loop.induct)
  case (1 delay)
  then show ?case by simp
next
  case (2 delay err rs)
  then show ?case by (simp add: split_beta Let_def)
next
  case (3 delay c rs)
  then show ?case by (simp add: split_beta)
qed

lemma sleeps_serve: "sleeps (fst (serve rs)) = spec_delays 0 rs"
proof -
  have "sleeps (fst (serve_loop (delay_after 0) rs)) = spec_delays 0 rs"
    by (rule sleeps_serve_loop)
  then show ?thesis
    by (simp add: serve_def split_beta sleeps_append split: option.split)
qed

text \<open>
  Claim C4. In the accept loop a temporary error at delay zero sets the delay to 5ms; a
  further temporary error doubles it, capped at one second; the sleeps of any run are the
  specification's schedule, which restarts after every successful accept (the accept
  resets the delay to zero); three temporary errors, a success and one more temporary
  error sleep 5ms, 10ms, 20ms and 5ms; a non-temporary error ends the loop, whatever
  would have been accepted later, and is the value returned.
\<close>

theorem serve_backoff:
  "next_delay 0 = 5 * Millisecond \<and>
   (0 < d \<and> d \<le> Second \<longrightarrow> next_delay d = min (2 * d) Second) \<and>
   sleeps (fst (serve rs)) = spec_delays 0 rs \<and>
   serve_loop d (Inr c # rs) = (GoHandle c # fst (serve_loop 0 rs), snd (serve_loop 0 rs)) \<and>
   (is_temporary e1 \<and> is_temporary e2 \<and> is_temporary e3 \<and> is_temporary e4 \<longrightarrow>
      sleeps (fst (serve [Inl e1, Inl e2, Inl e3, Inr c, Inl e4])) =
        [5 * Millisecond, 10 * Millisecond, 20 * Millisecond, 5 * Millisecond]) \<and>
   ((\<forall>r \<in> set pre. recoverable r) \<and> \<not> is_temporary err \<longrightarrow>
      serve (pre @ Inl err # rs) = (fst (serve_loop 0 pre) @ [ListenerClose], Some err))"
proof (intro conjI impI)
  show "next_delay 0 = 5 * Millisecond" by (simp add: next_delay_def)
  show "next_delay d = min (2 * d) Second" if "0 < d \<and> d \<le> Second"
    using that by (simp add: next_delay_doubles)
  show "sleeps (fst (serve rs)) = spec_delays 0 rs"
    by (rule sleeps_serve)
  show "serve_loop d (Inr c # rs) = (GoHandle c # fst (serve_loop 0 rs), snd (serve_loop 0 rs))"
    by (simp add: split_beta)
  show "sleeps (fst (serve [Inl e1, Inl e2, Inl e3, Inr c, Inl e4])) =
      [5 * Millisecond, 10 * Millisecond, 20 * Millisecond, 5 * Millisecond]"
    if "is_temporary e1 \<and> is_temporary e2 \<and> is_temporary e3 \<and> is_temporary e4"
    using that unfolding sleeps_serve
    by (simp add: spec_backoff_def Millisecond_def Second_def)
  show "serve (pre @ Inl err # rs) = (fst (serve_loop 0 pre) @ [ListenerClose], Some err)"
    if "(\<forall>r \<in> set pre. recoverable r) \<and> \<not> is_temporary err"
    using that by (simp add: serve_def serve_loop_stops)
qed

theorem serve_backoff_witness:
  "next_delay 640000000 = 1000000000 \<and>
   sleeps (fst (serve [Inl (NetError ''too many open files'' True),
                       Inl (NetError ''too many open files'' True),
                       Inl (NetError ''too many open files'' True),
                       Inr \<lparr>remote_addr = ''192.0.2.1:4711'', keep_alive = True, keep_alive_period = 0\<rparr>,
                       Inl (NetError ''too many open files'' True)])) =
     [5000000, 10000000, 20000000, 5000000] \<and>
   serve ([Inl (NetError ''too many open files'' True)] @
          Inl (OtherError ''use of closed network connection'') #
          [Inr \<lparr>remote_addr = ''192.0.2.1:4711'', keep_alive = True, keep_alive_period = 0\<rparr>]) =
     ([LogRetry (NetError ''too many open files'' True) 5000000, Sleep 5000000, ListenerClose],
      Some (OtherError ''use of closed network connection''))"
  using serve_backoff [where d = 640000000
      and ?e1.0 = "NetError ''too many open files'' True"
      and ?e2.0 = "NetError ''too many open files'' True"
      and ?e3.0 = "NetError ''too many open files'' True"
      and ?e4.0 = "NetError ''too many open files'' True"
      and c = "\<lparr>remote_addr = ''192.0.2.1:4711'', keep_alive = True, keep_alive_period = 0\<rparr>"
      and pre = "[Inl (NetError ''too many open files'' True)]"
      and err = "OtherError ''use of closed network connection''"
      and rs = "[Inr \<lparr>remote_addr = ''192.0.2.1:4711'', keep_alive = True, keep_alive_period = 0\<rparr>]"]
  by (simp add: Millisecond_def Second_def next_delay_def)










section \<open>Properties of validation\<close>

lemma contains_set: "contains strs s \<longleftrightarrow> s \<in> set strs"
  by (induction strs) auto


lemma init_hosts_error:
  "spec_host_violations i hs = v # vs \<Longrightarrow> init_hosts i pname hs (m, hosts) = Inl v"
proof (induction i pname hs "(m, hosts)" arbitrary: m hosts rule: init_hosts.induct)
  case (1 i pname m hosts)
  then show ?case by simp
next
  case (2 i pname host a rest m hosts)
  then show ?case by (auto split: if_splits)
qed

lemma init_hosts_ok:
  "spec_host_violations i hs = [] \<Longrightarrow>
   \<exists>hosts'. init_hosts i pname hs (m, hosts) = Inr (m ++ spec_host_map pname hs, hosts') \<and>
     set hosts' = set hosts \<union> fst ` set hs \<and> (distinct hosts \<longrightarrow> distinct hosts')"
proof (induction i pname hs "(m, hosts)" arbitrary: m hosts rule: init_hosts.induct)
  case (1 i pname m hosts)
  then show ?case by (simp add: spec_host_map_def)
next
  case (2 i pname host a rest m hosts)
  from "2.prems" have ne: "host \<noteq> []" "a \<noteq> []" and rest: "spec_host_violations i rest = []"
    by (auto split: if_splits)
  let ?m = "m(host \<mapsto> \<lparr>name = (pname, host), addr = a\<rparr>)"
  let ?hosts = "if \<not> contains hosts host then hosts @ [host] else hosts"
  from "2.hyps" [OF ne rest] obtain hosts' where
    h: "init_hosts i pname rest (?m, ?hosts) = Inr (?m ++ spec_host_map pname rest, hosts')"
      "set hosts' = set ?hosts \<union> fst ` set rest" "distinct ?hosts \<longrightarrow> distinct hosts'"
    by blast
  have map: "?m ++ spec_host_map pname rest = m ++ spec_host_map pname ((host, a) # rest)"
    by (simp add: spec_host_map_def map_add_assoc [symmetric])
  have "init_hosts i pname ((host, a) # rest) (m, hosts) = Inr (m ++ spec_host_map pname ((host, a) # rest), hosts')"
    using ne h(1) by (simp add: map)
  moreover have "set hosts' = set hosts \<union> fst ` set ((host, a) # rest)"
    using h(2) by (auto simp: contains_set)
  moreover have "distinct hosts \<longrightarrow> distinct hosts'"
    using h(3) by (auto simp: contains_set)
  ultimately show ?case by blast
qed

lemma init_protos_error:
  "spec_proto_violations i ps = v # vs \<Longrightarrow> init_protos i ps (bk, hosts, nps) = Inl v"
proof (induction ps arbitrary: i bk hosts nps)
  case Nil
  then show ?case by simp
next
  case (Cons pr rest)
  show ?case
  proof (cases "Name pr = [] \<or> Hosts pr = []")
    case True
    with Cons.prems show ?thesis by (auto split: if_splits)
  next
    case False
    show ?thesis
    proof (cases "spec_host_violations i (Hosts pr)")
      case Nil
      with Cons.prems False have rest: "spec_proto_violations (Suc i) rest = v # vs" by simp
      from init_hosts_ok [OF Nil, of "Name pr" Map.empty hosts] obtain hosts' where
        "init_hosts i (Name pr) (Hosts pr) (Map.empty, hosts) =
           Inr (Map.empty ++ spec_host_map (Name pr) (Hosts pr), hosts')"
        by blast
      with False show ?thesis by (simp add: Cons.IH [OF rest])
    next
      case (Cons v' vs')
      with Cons.prems False have "v' = v" by simp
      with Cons False show ?thesis
        by (simp add: init_hosts_error [OF Cons])
    qed
  qed
qed

lemma init_protos_ok:
  "spec_proto_violations i ps = [] \<Longrightarrow>
   \<exists>hosts'. init_protos i ps (bk, hosts, nps) =
       Inr (bk ++ spec_routing ps, hosts', nps @ map Name ps) \<and>
     set hosts' = set hosts \<union> spec_hostnames ps \<and> (distinct hosts \<longrightarrow> distinct hosts')"
proof (induction ps arbitrary: i bk hosts nps)
  case Nil
  then show ?case by (simp add: spec_routing_def spec_hostnames_def)
next
  case (Cons pr rest)
  from Cons.prems have ne: "Name pr \<noteq> []" "Hosts pr \<noteq> []"
    and hv: "spec_host_violations i (Hosts pr) = []"
    and rest: "spec_proto_violations (Suc i) rest = []"
    by (auto split: if_splits)
  let ?m = "spec_host_map (Name pr) (Hosts pr)"
  from init_hosts_ok [OF hv, of "Name pr" Map.empty hosts] obtain hosts1 where
    h1: "init_hosts i (Name pr) (Hosts pr) (Map.empty, hosts) = Inr (?m, hosts1)"
      "set hosts1 = set hosts \<union> fst ` set (Hosts pr)" "distinct hosts \<longrightarrow> distinct hosts1"
    by auto
  from Cons.IH [OF rest, of "bk(Name pr \<mapsto> ?m)" hosts1 "nps @ [Name pr]"] obtain hosts' where
    h': "init_protos (Suc i) rest (bk(Name pr \<mapsto> ?m), hosts1, nps @ [Name pr]) =
           Inr (bk(Name pr \<mapsto> ?m) ++ spec_routing rest, hosts', (nps @ [Name pr]) @ map Name rest)"
      "set hosts' = set hosts1 \<union> spec_hostnames rest" "distinct hosts1 \<longrightarrow> distinct hosts'"
    by blast
  have map: "bk(Name pr \<mapsto> ?m) ++ spec_routing rest = bk ++ spec_routing (pr # rest)"
    by (simp add: spec_routing_def map_add_assoc [symmetric])
  have "init_protos i (pr # rest) (bk, hosts, nps) =
      Inr (bk ++ spec_routing (pr # rest), hosts', nps @ map Name (pr # rest))"
    using ne h1(1) h'(1) by (simp add: map)
  moreover have "set hosts' = set hosts \<union> spec_hostnames (pr # rest)"
    using h1(2) h'(2) by (auto simp: spec_hostnames_def)
  moreover have "distinct hosts \<longrightarrow> distinct hosts'"
    using h1(3) h'(3) by blast
  ultimately show ?case by blast
qed

lemma spec_routing_None: "spec_routing ps n = None \<longleftrightarrow> n \<notin> set (map Name ps)"
  by (simp add: spec_routing_def map_of_eq_None_iff image_image)

lemma proto_names_nonempty:
  "spec_proto_violations i ps = [] \<Longrightarrow> [] \<notin> set (map Name ps)"
  by (induction ps arbitrary: i) (auto split: if_splits)

lemma validate_error:
  assumes "spec_violations cfg = v # vs"
  shows "validate cfg = Inl v"
proof (cases "DefaultProto cfg = []")
  case True
  with assms show ?thesis by (simp add: validate_def spec_violations_def)
next
  case dp: False
  show ?thesis
  proof (cases "spec_proto_violations 0 (Protos cfg)")
    case (Cons v' vs')
    with assms dp have "v' = v" by (simp add: spec_violations_def)
    with dp show ?thesis
      by (simp add: validate_def init_protos_error [OF Cons])
  next
    case Nil
    from init_protos_ok [OF Nil, of Map.empty "[]" "[]"] obtain hosts' where
      ok: "init_protos 0 (Protos cfg) (Map.empty, [], []) =
             Inr (spec_routing (Protos cfg), hosts', map Name (Protos cfg))"
      by auto
    show ?thesis
    proof (cases "spec_routing (Protos cfg) (DefaultProto cfg)")
      case None
      then have "DefaultProto cfg \<notin> set (map Name (Protos cfg))"
        unfolding spec_routing_None by blast
      with assms dp Nil have "v = DefaultProtoUndefined (DefaultProto cfg)"
        by (simp add: spec_violations_def)
      with dp ok None show ?thesis by (simp add: validate_def)
    next
      case (Some m)
      then have "spec_routing (Protos cfg) (DefaultProto cfg) \<noteq> None" by simp
      then have "DefaultProto cfg \<in> set (map Name (Protos cfg))"
        unfolding spec_routing_None by blast
      with assms dp Nil have "CacheDir cfg = [] \<and> v = CacheDirMissing"
        by (simp add: spec_violations_def split: if_splits)
      with dp ok Some show ?thesis by (simp add: validate_def)
    qed
  qed
qed

lemma validate_ok:
  assumes "spec_violations cfg = []"
  shows "\<exists>v m. validate cfg = Inr v \<and>
           spec_routing (Protos cfg) (DefaultProto cfg) = Some m \<and>
           v_backends v = (spec_routing (Protos cfg))([] \<mapsto> m) \<and>
           v_next_protos v = map Name (Protos cfg) \<and>
           set (v_whitelist v) = spec_hostnames (Protos cfg) \<and> distinct (v_whitelist v) \<and>
           v_bind v = (if BindInterfaces cfg = [] then [''''] else BindInterfaces cfg)"
proof -
  from assms have dp: "DefaultProto cfg \<noteq> []" and pv: "spec_proto_violations 0 (Protos cfg) = []"
    and df: "DefaultProto cfg \<in> set (map Name (Protos cfg))" and cd: "CacheDir cfg \<noteq> []"
    by (auto simp: spec_violations_def split: if_splits)
  from init_protos_ok [OF pv, of Map.empty "[]" "[]"] obtain hosts' where
    ok: "init_protos 0 (Protos cfg) (Map.empty, [], []) =
           Inr (spec_routing (Protos cfg), hosts', map Name (Protos cfg))"
      "set hosts' = spec_hostnames (Protos cfg)" "distinct hosts'"
    by auto
  from df have "spec_routing (Protos cfg) (DefaultProto cfg) \<noteq> None"
    unfolding spec_routing_None by blast
  then obtain m where m: "spec_routing (Protos cfg) (DefaultProto cfg) = Some m"
    by blast
  show ?thesis using dp cd ok m by (simp add: validate_def)
qed

lemma validate_Inr_no_violation:
  assumes "validate cfg = Inr v"
  shows "spec_violations cfg = []"
proof (cases "spec_violations cfg")
  case Nil
  then show ?thesis .
next
  case (Cons e es)
  from validate_error [OF Cons] assms show ?thesis by simp
qed

lemma init_Inr_validate:
  assumes "init cfg rnd = Inr p"
  shows "validate cfg = Inr (built p)"
  using assms by (auto simp: init_def Let_def split: sum.splits rand_result.splits)

lemma example_violations: "spec_violations example_config = []"
  by (simp add: spec_violations_def example_config_def)

lemma broken_violations: "spec_violations broken_config =
   [EmptyHostAddr 1 ''b.example'', DefaultProtoUndefined ''spdy'', CacheDirMissing]"
  by (simp add: spec_violations_def broken_config_def)

lemma example_init:
  "\<exists>p. init example_config (RandOk k) = Inr p \<and>
     lookup (v_backends (built p)) ''http/1.1'' ''b.example'' =
       Some \<lparr>name = (''http/1.1'', ''b.example''), addr = ''127.0.0.1:8081''\<rparr> \<and>
     lookup (v_backends (built p)) ''h2'' ''b.example'' = None \<and>
     v_whitelist (built p) = [''a.example'', ''b.example''] \<and>
     v_next_protos (built p) = [''h2'', ''http/1.1'']"
  by (simp add: init_def validate_def example_config_def Let_def lookup_def)

text \<open>
  Claim C6. A configuration with a structural violation is rejected, by validation and
  so by \<^verbatim>\<open>init\<close> whatever the randomness, with the error of the first violation in the
  order of the checks; the error names the field (the index of the protocol, the host).
  A configuration without violation yields the routing table of the configuration, with
  the empty protocol name added, and the list of the distinct host names referenced;
  \<^verbatim>\<open>init\<close> keeps them when the first key can be read.
\<close>

theorem validation_first_violation:
  "(spec_violations cfg \<noteq> [] \<longrightarrow>
      validate cfg = Inl (hd (spec_violations cfg)) \<and>
      init cfg rnd = Inl (hd (spec_violations cfg))) \<and>
   (spec_violations cfg = [] \<longrightarrow>
      (\<exists>v m. validate cfg = Inr v \<and>
         spec_routing (Protos cfg) (DefaultProto cfg) = Some m \<and>
         v_backends v = (spec_routing (Protos cfg))([] \<mapsto> m) \<and>
         set (v_whitelist v) = spec_hostnames (Protos cfg) \<and> distinct (v_whitelist v) \<and>
         (\<forall>k. \<exists>p. init cfg (RandOk k) = Inr p \<and> built p = v)))"
proof (intro conjI impI)
  assume "spec_violations cfg \<noteq> []"
  then obtain e es where c: "spec_violations cfg = e # es" by (cases "spec_violations cfg") auto
  from validate_error [OF c] c
  show "validate cfg = Inl (hd (spec_violations cfg))"
    and "init cfg rnd = Inl (hd (spec_violations cfg))"
    by (simp_all add: init_def)
next
  assume "spec_violations cfg = []"
  from validate_ok [OF this] obtain v m where
    v: "validate cfg = Inr v" "spec_routing (Protos cfg) (DefaultProto cfg) = Some m"
      "v_backends v = (spec_routing (Protos cfg))([] \<mapsto> m)"
      "set (v_whitelist v) = spec_hostnames (Protos cfg)" "distinct (v_whitelist v)"
    by blast
  have "\<exists>p. init cfg (RandOk k) = Inr p \<and> built p = v" for k
    using v(1) by (simp add: init_def Let_def)
  with v show "\<exists>v m. validate cfg = Inr v \<and>
         spec_routing (Protos cfg) (DefaultProto cfg) = Some m \<and>
         v_backends v = (spec_routing (Protos cfg))([] \<mapsto> m) \<and>
         set (v_whitelist v) = spec_hostnames (Protos cfg) \<and> distinct (v_whitelist v) \<and>
         (\<forall>k. \<exists>p. init cfg (RandOk k) = Inr p \<and> built p = v)"
    by blast
qed

theorem validation_first_violation_witness:
  "validate broken_config = Inl (EmptyHostAddr 1 ''b.example'') \<and>
   init broken_config (RandOk (example_key 0)) = Inl (EmptyHostAddr 1 ''b.example'') \<and>
   (\<exists>v. validate example_config = Inr v \<and>
      set (v_whitelist v) = {''a.example'', ''b.example''} \<and>
      (\<exists>p. init example_config (RandOk (example_key 0)) = Inr p \<and> built p = v))"
proof -
  from validation_first_violation [of broken_config "RandOk (example_key 0)"]
  have bad: "validate broken_config = Inl (EmptyHostAddr 1 ''b.example'') \<and>
      init broken_config (RandOk (example_key 0)) = Inl (EmptyHostAddr 1 ''b.example'')"
    by (simp add: broken_violations)
  from validation_first_violation [of example_config "RandOk (example_key 0)"] example_violations
  obtain v where v: "validate example_config = Inr v"
    "set (v_whitelist v) = spec_hostnames (Protos example_config)"
    "\<forall>k. \<exists>p. init example_config (RandOk k) = Inr p \<and> built p = v"
    by blast
  have names: "spec_hostnames (Protos example_config) = {''a.example'', ''b.example''}"
    by (auto simp: spec_hostnames_def example_config_def)
  from v(3) obtain p where "init example_config (RandOk (example_key 0)) = Inr p \<and> built p = v"
    by blast
  with bad v(1) v(2) names show ?thesis by auto
qed

text \<open>
  Claim C2. After a successful \<^verbatim>\<open>init\<close> the entry of the routing table for the empty
  protocol name is the host map of the default protocol, so looking a server name up under
  either gives the same backend.
\<close>

theorem default_alias:
  assumes "init cfg rnd = Inr p"
  shows "v_backends (built p) [] = v_backends (built p) (DefaultProto cfg) \<and>
         v_backends (built p) [] \<noteq> None \<and>
         lookup (v_backends (built p)) [] server_name =
           lookup (v_backends (built p)) (DefaultProto cfg) server_name"
proof -
  from init_Inr_validate [OF assms] have v: "validate cfg = Inr (built p)" .
  from validate_ok [OF validate_Inr_no_violation [OF v]] v obtain m where
    m: "spec_routing (Protos cfg) (DefaultProto cfg) = Some m"
       "v_backends (built p) = (spec_routing (Protos cfg))([] \<mapsto> m)"
    by auto
  then show ?thesis by (simp add: lookup_def)
qed

theorem default_alias_witness:
  "\<exists>p. init example_config (RandOk (example_key 0)) = Inr p \<and>
     v_backends (built p) [] = v_backends (built p) ''http/1.1'' \<and>
     lookup (v_backends (built p)) [] ''b.example'' =
       Some \<lparr>name = (''http/1.1'', ''b.example''), addr = ''127.0.0.1:8081''\<rparr>"
proof -
  from example_init [of "example_key 0"] obtain p where
    p: "init example_config (RandOk (example_key 0)) = Inr p"
      "lookup (v_backends (built p)) ''http/1.1'' ''b.example'' =
         Some \<lparr>name = (''http/1.1'', ''b.example''), addr = ''127.0.0.1:8081''\<rparr>"
    by blast
  have d: "DefaultProto example_config = ''http/1.1''" by (simp add: example_config_def)
  from default_alias [OF p(1), of "''b.example''"] p show ?thesis
    unfolding d by auto
qed






section \<open>Properties of the session ticket keys\<close>

lemma shift_keys_eq:
  "s < length a \<Longrightarrow> shift_keys s a = take 1 a @ take s a @ drop (Suc s) a"
proof (induction s arbitrary: a)
  case 0
  then show ?case by (cases a) simp_all
next
  case (Suc s)
  let ?a = "a[Suc s := a ! s]"
  from Suc.prems have len: "s < length ?a" by simp
  have d: "drop (Suc s) ?a = a ! s # drop (Suc (Suc s)) a"
    using Suc.prems by (simp add: drop_update_swap Cons_nth_drop_Suc [symmetric] upd_conv_take_nth_drop)
  have t: "take (Suc s) a = take s a @ [a ! s]"
    using Suc.prems by (simp add: take_Suc_conv_app_nth)
  show ?case
    using Suc.IH [OF len] by (simp add: d t)
qed


lemma rotate_tick_ok:
  assumes "ring_ok (keys p)" "session_ticket_keys p = visible (keys p)"
  shows "\<exists>p'. rotate_tick p (RandOk k) = Inr p' \<and> ring_ok (keys p') \<and>
           session_ticket_keys p' = visible (keys p') \<and>
           built p' = built p \<and>
           session_ticket_keys p' = take 96 (k # session_ticket_keys p)"
proof -
  define n where "n = (if slice_len (keys p) < length (backing (keys p))
               then slice_len (keys p) + 1 else slice_len (keys p))"
  define arr where "arr = shift_keys (n - 1) (backing (keys p))"
  have n: "0 < n" "n \<le> 96" "n - 1 < length (backing (keys p))"
    using assms(1) by (auto simp: n_def ring_ok_def)
  have arr: "arr = take 1 (backing (keys p)) @ take (n - 1) (backing (keys p)) @ drop n (backing (keys p))"
    using n shift_keys_eq [OF n(3)] by (simp add: arr_def)
  have len: "length arr = 96" using n assms(1) by (simp add: arr ring_ok_def) 
  have upd: "take n (arr[0 := k]) = k # take (n - Suc 0) (backing (keys p))"
    using n assms(1) by (cases "backing (keys p)") (auto simp: arr ring_ok_def take_Cons' )
  have vis: "take (n - Suc 0) (backing (keys p)) = take 95 (visible (keys p))"
  proof (cases "slice_len (keys p) < 96")
    case True
    then have "min 95 (slice_len (keys p)) = slice_len (keys p)" by simp
    with True show ?thesis using assms(1) by (simp add: visible_def n_def ring_ok_def)
  next
    case False
    then have "slice_len (keys p) = 96" using assms(1) by (simp add: ring_ok_def)
    then show ?thesis using assms(1) by (simp add: visible_def n_def ring_ok_def)
  qed
  have tick: "rotate_tick p (RandOk k) =
      Inr (p\<lparr>keys := \<lparr>backing = arr[0 := k], slice_len = n\<rparr>,
              session_ticket_keys := take n (arr[0 := k])\<rparr>)"
    using n by (simp add: rotate_tick_def Let_def visible_def n_def [symmetric] arr_def)
  have r1: "ring_ok \<lparr>backing = arr[0 := k], slice_len = n\<rparr>"
    using n len by (simp add: ring_ok_def)
  have r2: "take n (arr[0 := k]) = take 96 (k # session_ticket_keys p)"
    by (simp add: upd vis assms(2))
  show ?thesis
    unfolding tick using r1 r2 by (simp add: visible_def)
qed


lemma rotate_all_ok:
  assumes "ring_ok (keys p)" "session_ticket_keys p = visible (keys p)"
  shows "\<exists>p'. rotateSessionTicketKeys p (map RandOk ks) = Inr p' \<and> ring_ok (keys p') \<and>
           session_ticket_keys p' = visible (keys p') \<and> built p' = built p \<and>
           session_ticket_keys p' = take 96 (rev ks @ session_ticket_keys p)"
  using assms
proof (induction ks arbitrary: p)
  case Nil
  then show ?case by (simp add: visible_def ring_ok_def)
next
  case (Cons k ks)
  from rotate_tick_ok [OF Cons.prems, of k] obtain p1 where
    p1: "rotate_tick p (RandOk k) = Inr p1" "ring_ok (keys p1)"
      "session_ticket_keys p1 = visible (keys p1)" "built p1 = built p"
      "session_ticket_keys p1 = take 96 (k # session_ticket_keys p)"
    by blast
  from Cons.IH [OF p1(2) p1(3)] obtain p' where
    p': "rotateSessionTicketKeys p1 (map RandOk ks) = Inr p'" "ring_ok (keys p')"
      "session_ticket_keys p' = visible (keys p')" "built p' = built p1"
      "session_ticket_keys p' = take 96 (rev ks @ session_ticket_keys p1)"
    by blast
  have "take 96 (rev ks @ take 96 (k # session_ticket_keys p)) =
        take 96 (rev ks @ k # session_ticket_keys p)"
    by (simp add: take_Cons')
  then show ?case using p1 p' by simp
qed

lemma take_first_written: "0 < n \<Longrightarrow> take (Suc 0) ((replicate n z)[0 := k]) = [k]"
  by (cases n) simp_all

lemma init_ring:
  assumes "init cfg (RandOk k0) = Inr p"
  shows "ring_ok (keys p) \<and> session_ticket_keys p = visible (keys p) \<and>
         session_ticket_keys p = [k0]"
  using assms
  by (auto simp: init_def make_keys_def visible_def ring_ok_def Let_def take_first_written
      split: sum.splits)

lemma rotate_append:
  "rotateSessionTicketKeys p (xs @ ys) =
     (case rotateSessionTicketKeys p xs of Inl x \<Rightarrow> Inl x | Inr p' \<Rightarrow> rotateSessionTicketKeys p' ys)"
  by (induction xs arbitrary: p) (simp_all split: sum.splits)

lemma rotate_tick_fatal:
  "ring_ok (keys p) \<Longrightarrow> rotate_tick p (RandErr msg) = Inl (FatalExit msg)"
  by (simp add: rotate_tick_def ring_ok_def Let_def)

text \<open>
  Claim C3. \<^verbatim>\<open>init\<close> installs one key. After the rotation has read the keys \<open>ks\<close>,
  the installed keys are the newest 96 of all keys, newest first: all of them, \<open>length ks + 1\<close>
  many, while fewer than 96 rotations have happened, and exactly 96 from then on. A further
  rotation puts its key in front and drops the oldest key only if 96 keys were installed.
\<close>

theorem key_ring_rotation:
  assumes "init cfg (RandOk k0) = Inr p"
  shows "session_ticket_keys p = [k0] \<and>
    (\<exists>p'. rotateSessionTicketKeys p (map RandOk ks) = Inr p' \<and>
       session_ticket_keys p' = take 96 (rev ks @ [k0]) \<and>
       (length ks < 96 \<longrightarrow>
          session_ticket_keys p' = rev ks @ [k0] \<and> length (session_ticket_keys p') = length ks + 1) \<and>
       (95 \<le> length ks \<longrightarrow> length (session_ticket_keys p') = 96) \<and>
       (\<exists>p''. rotate_tick p' (RandOk k) = Inr p'' \<and>
          session_ticket_keys p'' =
            (if length (session_ticket_keys p') < 96 then k # session_ticket_keys p'
             else k # butlast (session_ticket_keys p'))))"
proof -
  have p: "ring_ok (keys p)"
    "session_ticket_keys p = visible (keys p)" "session_ticket_keys p = [k0]"
    using init_ring [OF assms] by blast+
  from rotate_all_ok [OF p(1) p(2), of ks] p(3) obtain p' where
    p': "rotateSessionTicketKeys p (map RandOk ks) = Inr p'" "ring_ok (keys p')"
      "session_ticket_keys p' = visible (keys p')"
      "session_ticket_keys p' = take 96 (rev ks @ [k0])"
    by auto
  from rotate_tick_ok [OF p'(2) p'(3), of k] obtain p'' where
    p'': "rotate_tick p' (RandOk k) = Inr p''"
      "session_ticket_keys p'' = take 96 (k # session_ticket_keys p')"
    by blast
  have le: "length (session_ticket_keys p') \<le> 96" by (simp add: p'(4))
  have "take 96 (k # session_ticket_keys p') =
      (if length (session_ticket_keys p') < 96 then k # session_ticket_keys p'
       else k # butlast (session_ticket_keys p'))"
  proof (cases "length (session_ticket_keys p') < 96")
    case True
    then show ?thesis by simp
  next
    case False
    with le have "length (session_ticket_keys p') = 96" by simp
    then show ?thesis by (simp add: butlast_conv_take)
  qed
  with p'' have tick: "\<exists>p''. rotate_tick p' (RandOk k) = Inr p'' \<and>
          session_ticket_keys p'' =
            (if length (session_ticket_keys p') < 96 then k # session_ticket_keys p'
             else k # butlast (session_ticket_keys p'))"
    by simp
  have small: "length ks < 96 \<longrightarrow>
          session_ticket_keys p' = rev ks @ [k0] \<and> length (session_ticket_keys p') = length ks + 1"
    by (simp add: p'(4))
  have big: "95 \<le> length ks \<longrightarrow> length (session_ticket_keys p') = 96"
    by (simp add: p'(4) del: take_append)
  from p(3) p'(1) p'(4) small big tick show ?thesis by blast
qed

theorem key_ring_rotation_witness:
  "\<exists>p p'. init example_config (RandOk (example_key 0)) = Inr p \<and>
     session_ticket_keys p = [example_key 0] \<and>
     rotateSessionTicketKeys p [RandOk (example_key 1), RandOk (example_key 2)] = Inr p' \<and>
     session_ticket_keys p' = [example_key 2, example_key 1, example_key 0]"
proof -
  from example_init [of "example_key 0"] obtain p where
    p: "init example_config (RandOk (example_key 0)) = Inr p"
    by blast
  from key_ring_rotation [OF p, of "[example_key 1, example_key 2]" "example_key 3"] p
  show ?thesis by auto
qed

text \<open>
  Claim C7. When the read of randomness fails, \<^verbatim>\<open>init\<close> returns an error (for a
  configuration without violation, the key generation error), \<^verbatim>\<open>main\<close> logs it and exits
  without serving on any interface, and the rotation, after any number of successful
  iterations, exits the process at the failed read, whatever later reads would deliver.
\<close>

theorem randomness_failure_fatal:
  "(\<exists>e. init cfg (RandErr msg) = Inl e \<and> main_from_init cfg (RandErr msg) listen = [FatalInit e]) \<and>
   (spec_violations cfg = [] \<longrightarrow> init cfg (RandErr msg) = Inl (KeyGenerationFailed msg)) \<and>
   \<not> list_ex is_serve (main_from_init cfg (RandErr msg) listen) \<and>
   (init cfg (RandOk k0) = Inr p \<longrightarrow>
      rotateSessionTicketKeys p (map RandOk ks @ RandErr msg # rest) = Inl (FatalExit msg))"
proof -
  have a: "\<exists>e. init cfg (RandErr msg) = Inl e \<and> main_from_init cfg (RandErr msg) listen = [FatalInit e]"
    by (cases "validate cfg") (simp_all add: init_def main_from_init_def)
  then have c: "\<not> list_ex is_serve (main_from_init cfg (RandErr msg) listen)"
    by auto
  have b: "init cfg (RandErr msg) = Inl (KeyGenerationFailed msg)" if "spec_violations cfg = []"
    using validate_ok [OF that] by (auto simp: init_def)
  have d: "rotateSessionTicketKeys p (map RandOk ks @ RandErr msg # rest) = Inl (FatalExit msg)"
    if "init cfg (RandOk k0) = Inr p"
  proof -
    have p: "ring_ok (keys p)" "session_ticket_keys p = visible (keys p)"
      using init_ring [OF that] by blast+
    from rotate_all_ok [OF p, of ks] obtain p' where
      p': "rotateSessionTicketKeys p (map RandOk ks) = Inr p'" "ring_ok (keys p')"
      by blast
    then show ?thesis by (simp add: rotate_append rotate_tick_fatal)
  qed
  from a b c d show ?thesis by blast
qed

theorem randomness_failure_fatal_witness:
  "init example_config (RandErr ''EAGAIN'') = Inl (KeyGenerationFailed ''EAGAIN'') \<and>
   main_from_init example_config (RandErr ''EAGAIN'') (\<lambda>host. None) =
     [FatalInit (KeyGenerationFailed ''EAGAIN'')] \<and>
   (\<exists>p. init example_config (RandOk (example_key 0)) = Inr p \<and>
      rotateSessionTicketKeys p [RandOk (example_key 1), RandErr ''EAGAIN'', RandOk (example_key 2)] =
        Inl (FatalExit ''EAGAIN''))"
proof -
  from example_init [of "example_key 0"] obtain p where
    p: "init example_config (RandOk (example_key 0)) = Inr p"
    by blast
  from randomness_failure_fatal [of example_config "''EAGAIN''" "\<lambda>host. None" "example_key 0" p
      "[example_key 1]" "[RandOk (example_key 2)]"] p example_violations
  show ?thesis by auto
qed

section \<open>Properties of the stream relay\<close>

lemma by_dir_append: "by_dir d (tr @ [(d', a)]) = by_dir d tr @ (if d' = d then [a] else [])"
  by (simp add: by_dir_def)

lemma won_append: "won d (tr @ [(d', a)]) \<longleftrightarrow> won d tr \<or> (d' = d \<and> a = SendFirst)"
  by (auto simp: won_def)

lemma relay_inv_start: "relay_inv (relay_start free fresh)"
  by (simp add: relay_inv_def dir_inv_def relay_start_def by_dir_def won_def before_select_def in_teardown_def)

lemma other_cases: "d' \<noteq> d \<Longrightarrow> d' = other d"
  by (cases d; cases d') simp_all

lemma dir_inv_other:
  assumes "dir_inv st d'" "d' \<noteq> d"
  shows "dir_inv (cp_step outcome d st) d'"
  using assms
  by (cases "pcs st d")
     (auto simp: cp_step_def dir_inv_def by_dir_append won_append split: list.splits option.splits)

lemma dir_inv_self:
  assumes "dir_inv st d"
  shows "dir_inv (cp_step outcome d st) d"
  using assms
  by (cases "pcs st d")
     (auto simp: cp_step_def dir_inv_def by_dir_append won_append before_select_def in_teardown_def
        got_def put_def logged_def first_cap_def
        split: list.splits option.splits)

lemma relay_inv_step:
  assumes "relay_inv st"
  shows "relay_inv (cp_step outcome d st)"
proof -
  from assms have di: "dir_inv st ToClient" "dir_inv st ToBackend"
    by (simp_all add: relay_inv_def)
  have d1: "dir_inv (cp_step outcome d st) d'" for d'
    using di dir_inv_self [of st d outcome] dir_inv_other [of st d' d outcome]
    by (cases d; cases d') auto
  have g: "first_len (cp_step outcome d st) =
       (if won ToClient (trace (cp_step outcome d st)) then 1 else 0) +
       (if won ToBackend (trace (cp_step outcome d st)) then 1 else 0) \<and>
     first_len (cp_step outcome d st) \<le> 1 \<and>
     (before_select (pcs (cp_step outcome d st) ToClient) \<and>
      before_select (pcs (cp_step outcome d st) ToBackend) \<or> first_len (cp_step outcome d st) = 1)"
    using assms
    by (cases d; cases "pcs st d")
       (auto simp: relay_inv_def dir_inv_def cp_step_def won_append before_select_def in_teardown_def
          first_cap_def split: list.splits option.splits if_splits)
  from d1 [of ToClient] d1 [of ToBackend] g show ?thesis
    unfolding relay_inv_def by blast
qed

lemma relay_inv_run: "relay_inv st \<Longrightarrow> relay_inv (run outcome sched st)"
  by (induction sched arbitrary: st) (simp_all add: relay_inv_step)

lemma split_count:
  "length (filter (\<lambda>e. P (snd e)) tr) =
     length (filter P (by_dir ToClient tr)) + length (filter P (by_dir ToBackend tr))"
proof (induction tr)
  case Nil
  then show ?case by (simp add: by_dir_def)
next
  case (Cons e tr)
  then show ?case by (cases "fst e") (simp_all add: by_dir_def)
qed

lemma expected_closes_le:
  "length (filter (\<lambda>a. a = CloseSock s) (expected d c b e w)) \<le> (if w \<or> in_teardown c then 1 else 0)"
  by (cases c; cases d; cases s)
     (auto simp: got_def put_def logged_def in_teardown_def split: option.splits)

lemma expected_closes_eq:
  "w \<Longrightarrow> c = AtPut \<or> c = Finished \<Longrightarrow>
   length (filter (\<lambda>a. a = CloseSock s) (expected d c b e w)) = 1"
  by (cases d; cases s) (auto simp: got_def put_def logged_def split: option.splits)

lemma expected_disc_le:
  "length (filter (\<lambda>a. a = LogDisconnected) (expected d c b e w)) \<le> (if w \<or> in_teardown c then 1 else 0)"
  by (cases c)
     (auto simp: got_def put_def logged_def in_teardown_def split: option.splits)

lemma expected_disc_eq:
  "w \<Longrightarrow> c = AtPut \<or> c = Finished \<Longrightarrow>
   length (filter (\<lambda>a. a = LogDisconnected) (expected d c b e w)) = 1"
  by (auto simp: got_def put_def logged_def split: option.splits)

lemma expected_loser:
  "\<not> w \<Longrightarrow> \<not> in_teardown c \<Longrightarrow> filter is_teardown (expected d c b e w) = []"
  by (cases c) (auto simp: got_def put_def logged_def in_teardown_def split: option.splits)

lemma expected_pool:
  "filter is_pool (expected d Finished (Some n) e w) = [PoolGet n, PoolPut n] \<and>
   hd (expected d Finished (Some n) e w) = PoolGet n \<and>
   last (expected d Finished (Some n) e w) = PoolPut n"
  by (auto simp: got_def put_def logged_def split: option.splits)

lemma rank_step:
  assumes "relay_inv st"
  shows "rank (pcs (cp_step outcome d st) d') \<le>
           (if d' = d then rank (pcs st d) - 1 else rank (pcs st d'))"
proof -
  from assms have "dir_inv st d" by (cases d) (simp_all add: relay_inv_def)
  then have "pcs st d \<noteq> AtGet \<longrightarrow> buf_of st d \<noteq> None" by (simp add: dir_inv_def)
  then show ?thesis
    by (cases "pcs st d") (auto simp: cp_step_def split: list.splits option.splits)
qed

lemma rank_run:
  "relay_inv st \<Longrightarrow> rank (pcs (run outcome sched st) d) \<le> rank (pcs st d) - count_list sched d"
proof (induction sched arbitrary: st)
  case Nil
  then show ?case by simp
next
  case (Cons x sched)
  from Cons.IH [OF relay_inv_step [OF Cons.prems], of outcome x]
    rank_step [OF Cons.prems, of outcome x d]
  show ?case by (simp split: if_splits)
qed

lemma rank_0: "rank c = 0 \<longleftrightarrow> c = Finished"
  by (cases c) simp_all

lemma relay_run_inv: "relay_inv (relay_run outcome sched free fresh)"
  by (simp add: relay_run_def relay_inv_run relay_inv_start)

lemma closes_split:
  "closes s tr = length (filter (\<lambda>a. a = CloseSock s) (by_dir ToClient tr)) +
                 length (filter (\<lambda>a. a = CloseSock s) (by_dir ToBackend tr))"
  unfolding closes_def by (rule split_count)

lemma disconnects_split:
  "disconnects tr = length (filter (\<lambda>a. a = LogDisconnected) (by_dir ToClient tr)) +
                    length (filter (\<lambda>a. a = LogDisconnected) (by_dir ToBackend tr))"
  unfolding disconnects_def by (rule split_count)

lemma inv_facts:
  assumes "relay_inv st"
  shows "by_dir d (trace st) = expected d (pcs st d) (buf_of st d) (err_of st d) (won d (trace st))"
    and "in_teardown (pcs st d) \<longrightarrow> won d (trace st)"
    and "before_select (pcs st d) \<longrightarrow> \<not> won d (trace st)"
    and "pcs st d \<noteq> AtGet \<longrightarrow> buf_of st d \<noteq> None"
    and "\<not> (won ToClient (trace st) \<and> won ToBackend (trace st))"
    and "first_len st \<le> 1"
    and "first_len st = (if won ToClient (trace st) then 1 else 0) + (if won ToBackend (trace st) then 1 else 0)"
    and "\<not> before_select (pcs st d) \<longrightarrow> won ToClient (trace st) \<or> won ToBackend (trace st)"
  using assms by (cases d; auto simp: relay_inv_def dir_inv_def split: if_splits)+

lemma teardown_at_most_once:
  assumes "relay_inv st"
  shows "closes s (trace st) \<le> 1" and "disconnects (trace st) \<le> 1"
proof -
  note f = inv_facts [OF assms]
  have w: "(if won d (trace st) \<or> in_teardown (pcs st d) then 1 else 0) =
      (if won d (trace st) then 1 else (0::nat))" for d
    using f(2) [of d] by auto
  have c: "length (filter (\<lambda>a. a = CloseSock s) (by_dir d (trace st))) \<le> (if won d (trace st) then 1 else 0)" for d
  proof -
    have "length (filter (\<lambda>a. a = CloseSock s) (by_dir d (trace st))) =
        length (filter (\<lambda>a. a = CloseSock s)
          (expected d (pcs st d) (buf_of st d) (err_of st d) (won d (trace st))))"
      by (simp only: f(1) [of d])
    also have "\<dots> \<le> (if won d (trace st) \<or> in_teardown (pcs st d) then 1 else 0)"
      by (rule expected_closes_le)
    finally show ?thesis unfolding w .
  qed
  have l: "length (filter (\<lambda>a. a = LogDisconnected) (by_dir d (trace st))) \<le> (if won d (trace st) then 1 else 0)" for d
  proof -
    have "length (filter (\<lambda>a. a = LogDisconnected) (by_dir d (trace st))) =
        length (filter (\<lambda>a. a = LogDisconnected)
          (expected d (pcs st d) (buf_of st d) (err_of st d) (won d (trace st))))"
      by (simp only: f(1) [of d])
    also have "\<dots> \<le> (if won d (trace st) \<or> in_teardown (pcs st d) then 1 else 0)"
      by (rule expected_disc_le)
    finally show ?thesis unfolding w .
  qed
  show "closes s (trace st) \<le> 1"
    unfolding closes_split using c [of ToClient] c [of ToBackend] f(5) by (simp split: if_splits)
  show "disconnects (trace st) \<le> 1"
    unfolding disconnects_split using l [of ToClient] l [of ToBackend] f(5) by (simp split: if_splits)
qed

lemma loser_silent:
  assumes "relay_inv st" "\<not> won d (trace st)"
  shows "filter is_teardown (by_dir d (trace st)) = []"
  using inv_facts(1,2) [OF assms(1), of d] assms(2) expected_loser by auto

lemma winner_done:
  assumes "relay_inv st" "won d (trace st)" "pcs st d = AtPut \<or> pcs st d = Finished"
  shows "closes s (trace st) = 1" and "disconnects (trace st) = 1"
proof -
  note f = inv_facts [OF assms(1)]
  have nw: "\<not> won (other d) (trace st)" using f(5) assms(2) by (cases d) auto
  have c1: "length (filter (\<lambda>a. a = CloseSock s) (by_dir d (trace st))) = 1"
    using expected_closes_eq [OF assms(2) assms(3)] f(1) [of d] by simp
  have l1: "length (filter (\<lambda>a. a = LogDisconnected) (by_dir d (trace st))) = 1"
    using expected_disc_eq [OF assms(2) assms(3)] f(1) [of d] by simp
  from loser_silent [OF assms(1) nw]
  have z: "filter is_teardown (by_dir (other d) (trace st)) = []" .
  have "filter (\<lambda>a. a = CloseSock s) (filter is_teardown (by_dir (other d) (trace st))) = []"
    "filter (\<lambda>a. a = LogDisconnected) (filter is_teardown (by_dir (other d) (trace st))) = []"
    by (simp_all only: z filter.simps)
  then have c0: "length (filter (\<lambda>a. a = CloseSock s) (by_dir (other d) (trace st))) = 0"
    and l0: "length (filter (\<lambda>a. a = LogDisconnected) (by_dir (other d) (trace st))) = 0"
    by (auto simp: filter_empty_conv)
  show "closes s (trace st) = 1"
    unfolding closes_split using c0 c1 by (cases d) simp_all
  show "disconnects (trace st) = 1"
    unfolding disconnects_split using l0 l1 by (cases d) simp_all
qed

lemma first_select_wins:
  assumes "relay_inv st" "pcs st d = AtSelect" "before_select (pcs st (other d))"
  shows "won d (trace (cp_step outcome d st))"
proof -
  note f = inv_facts [OF assms(1)]
  have "before_select (pcs st d)" using assms(2) by (simp add: before_select_def)
  with f(3) [of d] f(3) [of "other d"] assms(3) f(7) have "first_len st = 0"
    by (cases d) auto
  with assms(2) show ?thesis
    by (simp add: cp_step_def first_cap_def won_def)
qed

lemma all_scheduled_finished:
  assumes "8 \<le> count_list sched d"
  shows "pcs (relay_run outcome sched free fresh) d = Finished"
proof -
  have "rank (pcs (relay_run outcome sched free fresh) d) \<le> rank (pcs (relay_start free fresh) d) - count_list sched d"
    unfolding relay_run_def by (rule rank_run [OF relay_inv_start])
  also have "\<dots> = 0" using assms by (simp add: relay_start_def)
  finally show ?thesis by (simp add: rank_0)
qed

lemma client_first_run:
  "trace (relay_run eof_then_closed client_first [] 0) =
     [(ToBackend, PoolGet 0), (ToClient, PoolGet 1), (ToClient, CopyReturned None),
      (ToClient, SendFirst), (ToClient, CloseSock C1), (ToClient, CloseSock C2),
      (ToBackend, CopyReturned (Some (OtherError ''use of closed network connection''))),
      (ToClient, LogDisconnected), (ToBackend, SelectDefault), (ToClient, PoolPut 1),
      (ToBackend, PoolPut 0)] \<and>
   pcs (relay_run eof_then_closed client_first [] 0) ToClient = Finished \<and>
   pcs (relay_run eof_then_closed client_first [] 0) ToBackend = Finished"
  by (simp add: relay_run_def relay_start_def client_first_def eof_then_closed_def cp_step_def
      first_cap_def)

lemma backend_first_run:
  "trace (relay_run reset_then_eof backend_first [7] 0) =
     [(ToBackend, PoolGet 7), (ToBackend, CopyReturned (Some (OtherError ''connection reset by peer''))),
      (ToClient, PoolGet 0), (ToClient, CopyReturned None), (ToBackend, SendFirst),
      (ToClient, SelectDefault), (ToClient, PoolPut 0),
      (ToBackend, LogErr (OtherError ''connection reset by peer'')),
      (ToBackend, CloseSock C2), (ToBackend, CloseSock C1), (ToBackend, LogDisconnected),
      (ToBackend, PoolPut 7)] \<and>
   pcs (relay_run reset_then_eof backend_first [7] 0) ToClient = Finished \<and>
   pcs (relay_run reset_then_eof backend_first [7] 0) ToBackend = Finished \<and>
   pool (relay_run reset_then_eof backend_first [7] 0) = [7, 0]"
  by (simp add: relay_run_def relay_start_def backend_first_def reset_then_eof_def cp_step_def
      first_cap_def)

text \<open>
  Claim C1. In every run of the relay, under every schedule of the two directions and
  whatever the two copies return: the channel \<^verbatim>\<open>first\<close> has one slot and never holds more;
  each socket is closed at most once and at most one disconnect is logged, at every moment;
  at most one direction has sent on the channel, and a direction that has not sent has
  closed and logged nothing. Once the direction that sent is through its \<^verbatim>\<open>select\<close> case,
  and so once both directions have finished, each socket has been closed exactly once and
  exactly one disconnect has been logged. The direction that reaches its \<^verbatim>\<open>select\<close> while
  the other one has not is the one that sends. Both directions finish as soon as each
  has been scheduled for its eight statements.
\<close>

theorem exactly_once_teardown:
  assumes "st = relay_run outcome sched free fresh"
  shows "first_cap = 1 \<and> first_len st \<le> first_cap \<and>
    closes C1 (trace st) \<le> 1 \<and> closes C2 (trace st) \<le> 1 \<and> disconnects (trace st) \<le> 1 \<and>
    \<not> (won ToClient (trace st) \<and> won ToBackend (trace st)) \<and>
    (\<not> won d (trace st) \<longrightarrow> \<not> list_ex is_teardown (by_dir d (trace st))) \<and>
    (won d (trace st) \<and> (pcs st d = AtPut \<or> pcs st d = Finished) \<longrightarrow>
       closes C1 (trace st) = 1 \<and> closes C2 (trace st) = 1 \<and> disconnects (trace st) = 1) \<and>
    (pcs st ToClient = Finished \<and> pcs st ToBackend = Finished \<longrightarrow>
       (\<exists>w. won w (trace st) \<and> \<not> won (other w) (trace st)) \<and>
       closes C1 (trace st) = 1 \<and> closes C2 (trace st) = 1 \<and> disconnects (trace st) = 1) \<and>
    (pcs st d = AtSelect \<and> before_select (pcs st (other d)) \<longrightarrow>
       won d (trace (cp_step outcome d st))) \<and>
    (8 \<le> count_list sched ToClient \<and> 8 \<le> count_list sched ToBackend \<longrightarrow>
       pcs st ToClient = Finished \<and> pcs st ToBackend = Finished)"
proof -
  have inv: "relay_inv st" unfolding assms by (rule relay_run_inv)
  note f = inv_facts [OF inv]
  have a: "first_cap = 1 \<and> first_len st \<le> first_cap" using f(6) by (simp add: first_cap_def)
  have b: "closes C1 (trace st) \<le> 1 \<and> closes C2 (trace st) \<le> 1 \<and> disconnects (trace st) \<le> 1"
    using teardown_at_most_once [OF inv] by simp
  have c: "\<not> won d (trace st) \<longrightarrow> \<not> list_ex is_teardown (by_dir d (trace st))"
    using loser_silent [OF inv, of d] by (auto simp: list_ex_iff filter_empty_conv)
  have d: "won d (trace st) \<and> (pcs st d = AtPut \<or> pcs st d = Finished) \<longrightarrow>
       closes C1 (trace st) = 1 \<and> closes C2 (trace st) = 1 \<and> disconnects (trace st) = 1" for d
    using winner_done [OF inv, of d] by blast
  have e: "pcs st ToClient = Finished \<and> pcs st ToBackend = Finished \<longrightarrow>
       (\<exists>w. won w (trace st) \<and> \<not> won (other w) (trace st)) \<and>
       closes C1 (trace st) = 1 \<and> closes C2 (trace st) = 1 \<and> disconnects (trace st) = 1"
  proof
    assume fin: "pcs st ToClient = Finished \<and> pcs st ToBackend = Finished"
    then have "\<not> before_select (pcs st ToClient)" by (simp add: before_select_def)
    with f(8) [of ToClient] have "won ToClient (trace st) \<or> won ToBackend (trace st)" by simp
    then obtain w where w: "won w (trace st)" by blast
    with f(5) have nw: "\<not> won (other w) (trace st)" by (cases w) auto
    from fin have "pcs st w = Finished" by (cases w) simp_all
    with d [of w] w nw show "(\<exists>w. won w (trace st) \<and> \<not> won (other w) (trace st)) \<and>
       closes C1 (trace st) = 1 \<and> closes C2 (trace st) = 1 \<and> disconnects (trace st) = 1"
      by blast
  qed
  have g: "pcs st d = AtSelect \<and> before_select (pcs st (other d)) \<longrightarrow>
       won d (trace (cp_step outcome d st))"
    using first_select_wins [OF inv, of d outcome] by blast
  have h: "8 \<le> count_list sched ToClient \<and> 8 \<le> count_list sched ToBackend \<longrightarrow>
       pcs st ToClient = Finished \<and> pcs st ToBackend = Finished"
    unfolding assms using all_scheduled_finished by blast
  from a b f(5) c d [of d] e g h show ?thesis by blast
qed

theorem exactly_once_teardown_witness:
  "pcs (relay_run eof_then_closed client_first [] 0) ToClient = Finished \<and>
   pcs (relay_run eof_then_closed client_first [] 0) ToBackend = Finished \<and>
   won ToClient (trace (relay_run eof_then_closed client_first [] 0)) \<and>
   \<not> won ToBackend (trace (relay_run eof_then_closed client_first [] 0)) \<and>
   closes C1 (trace (relay_run eof_then_closed client_first [] 0)) = 1 \<and>
   closes C2 (trace (relay_run eof_then_closed client_first [] 0)) = 1 \<and>
   disconnects (trace (relay_run eof_then_closed client_first [] 0)) = 1 \<and>
   by_dir ToBackend (trace (relay_run eof_then_closed client_first [] 0)) =
     [PoolGet 0, CopyReturned (Some (OtherError ''use of closed network connection'')),
      SelectDefault, PoolPut 0]"
proof -
  have w: "won ToClient (trace (relay_run eof_then_closed client_first [] 0))"
    "by_dir ToBackend (trace (relay_run eof_then_closed client_first [] 0)) =
     [PoolGet 0, CopyReturned (Some (OtherError ''use of closed network connection'')),
      SelectDefault, PoolPut 0]"
    by (simp_all add: client_first_run won_def by_dir_def)
  have fin: "pcs (relay_run eof_then_closed client_first [] 0) ToClient = Finished"
    "pcs (relay_run eof_then_closed client_first [] 0) ToBackend = Finished"
    by (simp_all add: client_first_run)
  from exactly_once_teardown [OF refl, of eof_then_closed client_first "[]" 0 ToClient] fin w
  show ?thesis by blast
qed

text \<open>
  Claim C8. In every run of the relay, whatever the copy returned and whether the direction
  sent on the channel or not: a direction that has finished took one buffer from the pool
  as its first action and put that same buffer back as its last; executing the last
  statement pushes the buffer onto the free list; and a direction scheduled for its eight
  statements has finished.
\<close>

theorem buffer_returned:
  assumes "st = relay_run outcome sched free fresh"
  shows "(pcs st d = Finished \<longrightarrow>
      (\<exists>b. buf_of st d = Some b \<and>
         filter is_pool (by_dir d (trace st)) = [PoolGet b, PoolPut b] \<and>
         hd (by_dir d (trace st)) = PoolGet b \<and> last (by_dir d (trace st)) = PoolPut b)) \<and>
    (pcs st d = AtPut \<longrightarrow>
      (\<exists>b. buf_of st d = Some b \<and> pool (cp_step outcome d st) = b # pool st \<and>
         pcs (cp_step outcome d st) d = Finished)) \<and>
    (8 \<le> count_list sched d \<longrightarrow> pcs st d = Finished)"
proof -
  have inv: "relay_inv st" unfolding assms by (rule relay_run_inv)
  note f = inv_facts [OF inv]
  have a: "\<exists>b. buf_of st d = Some b \<and>
         filter is_pool (by_dir d (trace st)) = [PoolGet b, PoolPut b] \<and>
         hd (by_dir d (trace st)) = PoolGet b \<and> last (by_dir d (trace st)) = PoolPut b"
    if "pcs st d = Finished"
  proof -
    from f(4) [of d] that obtain b where b: "buf_of st d = Some b" by auto
    with f(1) [of d] that expected_pool [of d b "err_of st d" "won d (trace st)"]
    show ?thesis by simp
  qed
  have b: "\<exists>b. buf_of st d = Some b \<and> pool (cp_step outcome d st) = b # pool st \<and>
         pcs (cp_step outcome d st) d = Finished" if "pcs st d = AtPut"
  proof -
    from f(4) [of d] that obtain b where b: "buf_of st d = Some b" by auto
    with that show ?thesis by (simp add: cp_step_def)
  qed
  have c: "8 \<le> count_list sched d \<longrightarrow> pcs st d = Finished"
    unfolding assms using all_scheduled_finished by blast
  from a b c show ?thesis by blast
qed

theorem buffer_returned_witness:
  "pcs (relay_run reset_then_eof backend_first [7] 0) ToClient = Finished \<and>
   pcs (relay_run reset_then_eof backend_first [7] 0) ToBackend = Finished \<and>
   filter is_pool (by_dir ToBackend (trace (relay_run reset_then_eof backend_first [7] 0))) =
     [PoolGet 7, PoolPut 7] \<and>
   filter is_pool (by_dir ToClient (trace (relay_run reset_then_eof backend_first [7] 0))) =
     [PoolGet 0, PoolPut 0] \<and>
   pool (relay_run reset_then_eof backend_first [7] 0) = [7, 0]"
proof -
  have b: "buf_of (relay_run reset_then_eof backend_first [7] 0) ToBackend = Some 7"
    "buf_of (relay_run reset_then_eof backend_first [7] 0) ToClient = Some 0"
    by (simp_all add: relay_run_def relay_start_def backend_first_def reset_then_eof_def cp_step_def
      first_cap_def)
  have fin: "pcs (relay_run reset_then_eof backend_first [7] 0) ToClient = Finished"
    "pcs (relay_run reset_then_eof backend_first [7] 0) ToBackend = Finished"
    "pool (relay_run reset_then_eof backend_first [7] 0) = [7, 0]"
    by (simp_all add: backend_first_run)
  from buffer_returned [OF refl, of reset_then_eof backend_first "[7]" 0 ToBackend]
    buffer_returned [OF refl, of reset_then_eof backend_first "[7]" 0 ToClient]
    fin b
  show ?thesis by auto
qed

section \<open>Properties of connection handling\<close>

text \<open>
  Claim C5. When the handshake succeeds and the routing table has no backend for the
  negotiated protocol and server name, \<^verbatim>\<open>proxy.handle\<close> logs the miss, closes the
  connection and does nothing else; in particular it dials no backend.
\<close>

theorem unknown_route_closed:
  assumes "lookup bk protocol server_name = None"
  shows "proxy_handle bk remote (Inr (protocol, server_name)) dial outcome sched free fresh =
           [LogNotFound protocol server_name remote, CloseConn] \<and>
         \<not> list_ex is_dial
             (proxy_handle bk remote (Inr (protocol, server_name)) dial outcome sched free fresh)"
  using assms by (simp add: proxy_handle_def)

theorem unknown_route_closed_witness:
  "\<exists>p. init example_config (RandOk (example_key 0)) = Inr p \<and>
     lookup (v_backends (built p)) ''h2'' ''b.example'' = None \<and>
     proxy_handle (v_backends (built p)) ''192.0.2.1:4711'' (Inr (''h2'', ''b.example''))
         None (\<lambda>d. None) [ToBackend, ToClient] [] 0 =
       [LogNotFound ''h2'' ''b.example'' ''192.0.2.1:4711'', CloseConn]"
proof -
  from example_init [of "example_key 0"] obtain p where
    p: "init example_config (RandOk (example_key 0)) = Inr p"
      "lookup (v_backends (built p)) ''h2'' ''b.example'' = None"
    by blast
  from unknown_route_closed [OF p(2)] p show ?thesis by blast
qed


end
